theory Spec2Isabelle
  imports Main
begin

section \<open>Domain events and listeners\<close>

text \<open>
  \<^verbatim>\<open>interfaces/IDomainEvent.ts\<close>: an event carries its time of occurrence, a payload and a
  type discriminator. The publisher never looks inside an event; the time is kept as a
  number of milliseconds and the payload as a list of key/value pairs.
\<close>

record IDomainEvent =
  occuredOn :: int
  payload :: "(string \<times> string) list"
  type :: string

text \<open>
  A listener is an object; the publisher only ever compares listeners by reference
  (\<^verbatim>\<open>indexOf\<close> uses strict equality) and calls their \<^verbatim>\<open>handle\<close> method. A listener is
  therefore represented by its reference.
\<close>

type_synonym IDomainEventListener = nat

section \<open>The publisher and what can be observed of a run\<close>

text \<open>
  \<^verbatim>\<open>class Publisher\<close> has two private fields. The record \<open>system\<close> extends it by the two
  things an observer of a run sees besides the publisher: the invocations of \<^verbatim>\<open>handle\<close>
  (listener and event, in order) and the lines written to the console.
\<close>

record Publisher =
  subscribers :: "IDomainEventListener list"
  publishing :: bool

datatype console_entry =
  Debug string IDomainEvent
| Warn string

record system = Publisher +
  handled :: "(IDomainEventListener \<times> IDomainEvent) list"
  console :: "console_entry list"

section \<open>Behaviour of a listener\<close>

text \<open>
  A \<^verbatim>\<open>handle\<close> procedure is foreign code. What it can do to the publisher is call its four
  public methods; how it ends is one of: it throws before returning (\<open>Throws\<close>), or it
  returns a value. The returned value is either not a promise or a promise that fulfils,
  which \<^verbatim>\<open>Promise.allSettled\<close> treats alike (\<open>Fulfils\<close>), a promise that rejects
  (\<open>Rejects\<close>), or a promise that never settles (\<open>Never\<close>). Before the returned promise
  settles, the asynchronous rest of the handler may call the publisher again; those
  calls are the list carried by \<open>Returns\<close>.

  The synchronous part of a handler is a finite list of calls: a handler that loops
  forever before returning is outside this model.
\<close>

datatype call =
  Subscribe IDomainEventListener
| Unsubscribe IDomainEventListener
| Publish IDomainEvent
| Reset

datatype settlement = Fulfils | Rejects | Never

datatype completion =
  Throws
| Returns "call list" settlement

type_synonym script = "call list \<times> completion"

text \<open>
  The behaviour of the listeners: what the \<^verbatim>\<open>handle\<close> method of a listener does with an
  event, which may depend on everything that happened before it was invoked.
\<close>

type_synonym handlers = "IDomainEventListener \<Rightarrow> IDomainEvent \<Rightarrow> system \<Rightarrow> script"

section \<open>Array primitives used by the publisher\<close>

text \<open>\<^verbatim>\<open>Array.prototype.indexOf\<close>: the first index holding the element, \<open>-1\<close> if none.\<close>

fun indexOf :: "'a list \<Rightarrow> 'a \<Rightarrow> int" where
  "indexOf [] x = - 1"
| "indexOf (y # ys) x =
     (if y = x then 0
      else (let i = indexOf ys x in if i > - 1 then i + 1 else - 1))"

text \<open>
  \<^verbatim>\<open>Array.prototype.splice(start, deleteCount)\<close>, giving the array after the removal. A
  negative start counts from the end, a start past the end is the length.
\<close>

definition splice :: "'a list \<Rightarrow> int \<Rightarrow> nat \<Rightarrow> 'a list" where
  "splice xs start deleteCount =
     (let len = int (length xs);
          k = nat (if start < 0 then max (len + start) 0 else min start len)
      in take k xs @ drop (k + deleteCount) xs)"

section \<open>The operations of the publisher\<close>

definition subscribe :: "IDomainEventListener \<Rightarrow> system \<Rightarrow> system" where
  "subscribe subscriber s =
     (if publishing s then s
      else s\<lparr>subscribers := subscribers s @ [subscriber]\<rparr>)"

definition unsubscribe :: "IDomainEventListener \<Rightarrow> system \<Rightarrow> system" where
  "unsubscribe subscriber s =
     (if publishing s
      then s\<lparr>console := console s @ [Warn ''Tried unsubscribe while publishing'']\<rparr>
      else (let index = indexOf (subscribers s) subscriber
            in if index > - 1
               then s\<lparr>subscribers := splice (subscribers s) index 1\<rparr>
               else s))"

definition reset :: "system \<Rightarrow> system" where
  "reset s = s\<lparr>subscribers := []\<rparr>"

text \<open>
  One call made by a handler. The parameter \<open>pub\<close> is the publisher's own \<^verbatim>\<open>publish\<close>
  as the handler reaches it; the promise a nested \<^verbatim>\<open>publish\<close> returns is not part of
  the script.
\<close>

fun perform :: "(IDomainEvent \<Rightarrow> system \<Rightarrow> system option) \<Rightarrow> call \<Rightarrow> system \<Rightarrow> system option" where
  "perform pub (Subscribe l) s = Some (subscribe l s)"
| "perform pub (Unsubscribe l) s = Some (unsubscribe l s)"
| "perform pub (Publish e) s = pub e s"
| "perform pub Reset s = Some (reset s)"

fun perform_all :: "(IDomainEvent \<Rightarrow> system \<Rightarrow> system option) \<Rightarrow> call list \<Rightarrow> system \<Rightarrow> system option" where
  "perform_all pub [] s = Some s"
| "perform_all pub (c # cs) s =
     (case perform pub c s of
        None \<Rightarrow> None
      | Some s' \<Rightarrow> perform_all pub cs s')"

text \<open>
  \<^verbatim>\<open>this.subscribers.map((subscriber) => { console.debug(...); return subscriber.handle(event); })\<close>.
  The array being mapped is the one the field pointed to when \<^verbatim>\<open>map\<close> was called: it is
  passed as the list \<open>ls\<close>, apart from the field \<open>subscribers\<close>, which \<^verbatim>\<open>reset\<close> may
  point to a new array meanwhile. A handler that throws ends the \<^verbatim>\<open>map\<close> at once
  (\<open>Raised\<close>); otherwise the values returned are collected (\<open>Mapped\<close>).
\<close>

type_synonym promise = "call list \<times> settlement"

datatype mapped =
  Raised system
| Mapped system "promise list"

fun map_handle :: "(IDomainEvent \<Rightarrow> system \<Rightarrow> system option) \<Rightarrow> handlers \<Rightarrow> IDomainEvent \<Rightarrow>
    IDomainEventListener list \<Rightarrow> system \<Rightarrow> mapped option" where
  "map_handle pub h event [] s = Some (Mapped s [])"
| "map_handle pub h event (subscriber # ls) s =
     (let s1 = s\<lparr>console := console s @ [Debug ''calling subscriber for event'' event]\<rparr>;
          s2 = s1\<lparr>handled := handled s1 @ [(subscriber, event)]\<rparr>
      in case h subscriber event s2 of
           (calls, c) \<Rightarrow>
             (case perform_all pub calls s2 of
                None \<Rightarrow> None
              | Some s3 \<Rightarrow>
                  (case c of
                     Throws \<Rightarrow> Some (Raised s3)
                   | Returns later st \<Rightarrow>
                       (case map_handle pub h event ls s3 of
                          None \<Rightarrow> None
                        | Some (Raised s4) \<Rightarrow> Some (Raised s4)
                        | Some (Mapped s4 ps) \<Rightarrow> Some (Mapped s4 ((later, st) # ps))))))"

text \<open>
  \<^verbatim>\<open>await Promise.allSettled(promises)\<close>: while \<^verbatim>\<open>publish\<close> is suspended the asynchronous
  rests of the handlers run, and the wait ends when every promise has settled, fulfilled
  or rejected alike. The boolean tells whether it ends. The rests are run one handler
  after the other; the calls they can make commute while the flag is set, so another
  interleaving gives the same publisher.
\<close>

fun allSettled :: "(IDomainEvent \<Rightarrow> system \<Rightarrow> system option) \<Rightarrow> promise list \<Rightarrow> system \<Rightarrow>
    (system \<times> bool) option" where
  "allSettled pub [] s = Some (s, True)"
| "allSettled pub ((later, st) # ps) s =
     (case perform_all pub later s of
        None \<Rightarrow> None
      | Some s1 \<Rightarrow>
          (case allSettled pub ps s1 of
             None \<Rightarrow> None
           | Some (s2, settled) \<Rightarrow> Some (s2, st \<noteq> Never \<and> settled)))"

text \<open>
  \<^verbatim>\<open>publish\<close> returns a promise: \<open>Fulfilled\<close>, \<open>Rejected\<close> (an exception left the body of
  the async function) or \<open>Pending\<close> for ever (the \<^verbatim>\<open>await\<close> never resumes). A handler may
  call \<^verbatim>\<open>publish\<close> again, so the first argument bounds the depth of nested calls that
  get past the guard; \<open>None\<close> means the bound was too small. When the body is left by an
  exception, the rests of the handlers already started are no longer part of this call.
\<close>

datatype promise_state = Fulfilled | Rejected | Pending

fun publish :: "nat \<Rightarrow> handlers \<Rightarrow> IDomainEvent \<Rightarrow> system \<Rightarrow> (system \<times> promise_state) option" where
  "publish 0 h event s = (if publishing s then Some (s, Fulfilled) else None)"
| "publish (Suc n) h event s =
     (if publishing s then Some (s, Fulfilled)
      else
        (let s1 = s\<lparr>publishing := True\<rparr>;
             nested = (\<lambda>e' s'. map_option fst (publish n h e' s'))
         in case map_handle nested h event (subscribers s1) s1 of
              None \<Rightarrow> None
            | Some (Raised s2) \<Rightarrow> Some (s2\<lparr>publishing := False\<rparr>, Rejected)
            | Some (Mapped s2 promises) \<Rightarrow>
                (case allSettled nested promises s2 of
                   None \<Rightarrow> None
                 | Some (s3, True) \<Rightarrow> Some (s3\<lparr>publishing := False\<rparr>, Fulfilled)
                 | Some (s3, False) \<Rightarrow> Some (s3, Pending))))"

text \<open>\<^verbatim>\<open>export const DomainEventPublisher = new Publisher()\<close>, before anything has run.\<close>

definition DomainEventPublisher :: system where
  "DomainEventPublisher = \<lparr>subscribers = [], publishing = False, handled = [], console = []\<rparr>"

section \<open>Notions used in the proofs\<close>

text \<open>
  A \<^verbatim>\<open>publish\<close> as a handler reaches it is \<open>guarded\<close> when it leaves a dispatching
  system as it is. \<open>during_dispatch s s'\<close> relates a dispatching system to a later one of
  the same dispatch: the flag is still set, no listener has been invoked in between,
  and the registry is the same or has been emptied.
\<close>

definition guarded :: "(IDomainEvent \<Rightarrow> system \<Rightarrow> system option) \<Rightarrow> bool" where
  "guarded pub = (\<forall>e s. publishing s \<longrightarrow> pub e s = Some s)"

definition during_dispatch :: "system \<Rightarrow> system \<Rightarrow> bool" where
  "during_dispatch s s' =
     (publishing s' \<and> handled s' = handled s \<and>
      (subscribers s' = subscribers s \<or> subscribers s' = []))"

fun system_of :: "mapped \<Rightarrow> system" where
  "system_of (Raised s) = s"
| "system_of (Mapped s ps) = s"

text \<open>A script calls \<^verbatim>\<open>reset\<close>, before or after its handler returns.\<close>

fun resets :: "script \<Rightarrow> bool" where
  "resets (calls, Throws) = (Reset \<in> set calls)"
| "resets (calls, Returns later st) = (Reset \<in> set calls \<or> Reset \<in> set later)"

section \<open>Example events and listeners\<close>

text \<open>
  The listeners of the examples are \<open>0\<close> (called A), \<open>1\<close> (B) and \<open>2\<close> (C). Unless said
  otherwise a listener returns at once without calling the publisher, like the
  synchronous listener of the README.
\<close>

definition event1 :: IDomainEvent where
  "event1 = \<lparr>occuredOn = 1700000000000, payload = [(''userId'', ''u-1'')],
     type = ''user.created''\<rparr>"

definition well_behaved :: handlers where
  "well_behaved l e s = ([], Returns [] Fulfils)"

text \<open>A throws before returning: \<^verbatim>\<open>handle(event) { throw new Error() }\<close>.\<close>

definition first_throws :: handlers where
  "first_throws l e s = (if l = 0 then ([], Throws) else ([], Returns [] Fulfils))"

definition second_throws :: handlers where
  "second_throws l e s = (if l = 1 then ([], Throws) else ([], Returns [] Fulfils))"

text \<open>A returns a promise that rejects: \<^verbatim>\<open>async handle(event) { throw new Error() }\<close>.\<close>

definition first_rejects :: handlers where
  "first_rejects l e s = (if l = 0 then ([], Returns [] Rejects) else ([], Returns [] Fulfils))"

text \<open>B returns a promise that never settles.\<close>

definition second_hangs :: handlers where
  "second_hangs l e s = (if l = 1 then ([], Returns [] Never) else ([], Returns [] Fulfils))"

text \<open>
  A subscribes C and publishes another event from inside its handler, and later, before
  its promise rejects, tries to unsubscribe itself.
\<close>

definition meddler :: handlers where
  "meddler l e s =
     (if l = 0
      then ([Subscribe 2, Publish (e\<lparr>type := ''user.greeted''\<rparr>)], Returns [Unsubscribe 0] Rejects)
      else ([], Returns [] Fulfils))"

text \<open>A calls \<^verbatim>\<open>reset\<close> from inside its handler, at once or after an \<^verbatim>\<open>await\<close>.\<close>

definition first_resets :: handlers where
  "first_resets l e s = (if l = 0 then ([Reset], Returns [] Fulfils) else ([], Returns [] Fulfils))"

definition first_resets_later :: handlers where
  "first_resets_later l e s =
     (if l = 0 then ([], Returns [Reset] Fulfils) else ([], Returns [] Fulfils))"

definition resets_then_throws :: handlers where
  "resets_then_throws l e s = (if l = 0 then ([Reset], Throws) else ([], Returns [] Fulfils))"

section \<open>Array primitives\<close>

lemma indexOf_absent: "x \<notin> set xs \<Longrightarrow> indexOf xs x = - 1"
  by (induction xs) (auto simp: Let_def)

lemma indexOf_present: "x \<in> set xs \<Longrightarrow> 0 \<le> indexOf xs x \<and> indexOf xs x < int (length xs)"
  by (induction xs) (auto simp: Let_def)

lemma indexOf_found: "(indexOf xs x > - 1) = (x \<in> set xs)"
proof (cases "x \<in> set xs")
  case True
  with indexOf_present[of x xs] show ?thesis by simp
next
  case False
  with indexOf_absent[of x xs] show ?thesis by simp
qed

lemma splice_indexOf: "x \<in> set xs \<Longrightarrow> splice xs (indexOf xs x) (Suc 0) = remove1 x xs"
proof (induction xs)
  case Nil
  then show ?case by simp
next
  case (Cons y ys)
  show ?case
  proof (cases "y = x")
    case True
    then show ?thesis by (simp add: splice_def)
  next
    case False
    with Cons.prems have in_ys: "x \<in> set ys" by simp
    from indexOf_present[OF in_ys]
    have b: "0 \<le> indexOf ys x" "indexOf ys x < int (length ys)" by auto
    from Cons.IH[OF in_ys] b
    have "take (nat (indexOf ys x)) ys @ drop (Suc (nat (indexOf ys x))) ys = remove1 x ys"
      by (simp add: splice_def Let_def min_def)
    with False b show ?thesis
      by (simp add: splice_def Let_def min_def nat_add_distrib)
  qed
qed

lemma remove1_first: "l \<notin> set xs \<Longrightarrow> remove1 l (xs @ l # ys) = xs @ ys"
  by (simp add: remove1_append)

section \<open>Registry operations while idle\<close>

lemma subscribe_idle:
  "\<not> publishing s \<Longrightarrow> subscribe l s = s\<lparr>subscribers := subscribers s @ [l]\<rparr>"
  by (simp add: subscribe_def)

lemma fold_subscribe_idle:
  "\<not> publishing s \<Longrightarrow> fold subscribe ls s = s\<lparr>subscribers := subscribers s @ ls\<rparr>"
  by (induction ls arbitrary: s) (simp_all add: subscribe_idle)

lemma unsubscribe_idle:
  "\<not> publishing s \<Longrightarrow> unsubscribe l s = s\<lparr>subscribers := remove1 l (subscribers s)\<rparr>"
  by (cases "l \<in> set (subscribers s)")
     (simp_all add: unsubscribe_def Let_def indexOf_found splice_indexOf remove1_idem)

section \<open>What handlers can do during a dispatch\<close>

lemma publish_guard: "publishing s \<Longrightarrow> publish n h e s = Some (s, Fulfilled)"
  by (cases n) simp_all

text \<open>
  Whatever the depth left, the \<^verbatim>\<open>publish\<close> a handler reaches is guarded. So the bound on
  the depth is never used up below: one level is enough for every call.
\<close>

lemma nested_guarded: "guarded (\<lambda>e' s'. map_option fst (publish n h e' s'))"
  by (simp add: guarded_def publish_guard)

lemma during_dispatch_refl: "publishing s \<Longrightarrow> during_dispatch s s"
  by (simp add: during_dispatch_def)

lemma during_dispatch_trans:
  "during_dispatch s s1 \<Longrightarrow> during_dispatch s1 s2 \<Longrightarrow> during_dispatch s s2"
  by (auto simp: during_dispatch_def)

lemma perform_dispatching:
  assumes "guarded pub" "publishing s"
  shows "\<exists>s'. perform pub c s = Some s' \<and> during_dispatch s s'"
  using assms
  by (cases c) (auto simp: guarded_def during_dispatch_def subscribe_def unsubscribe_def reset_def)

lemma perform_all_dispatching:
  assumes "guarded pub" "publishing s"
  shows "\<exists>s'. perform_all pub cs s = Some s' \<and> during_dispatch s s'"
  using assms
proof (induction cs arbitrary: s)
  case Nil
  then show ?case by (simp add: during_dispatch_refl)
next
  case (Cons c cs)
  from perform_dispatching[OF Cons.prems] obtain s1 where
    s1: "perform pub c s = Some s1" "during_dispatch s s1" by blast
  then have "publishing s1" by (simp add: during_dispatch_def)
  from Cons.IH[OF Cons.prems(1) this] obtain s2 where
    "perform_all pub cs s1 = Some s2" "during_dispatch s1 s2" by blast
  with s1 show ?case by (auto intro: during_dispatch_trans)
qed

lemma perform_all_emptied:
  assumes "guarded pub" "publishing s" "Reset \<in> set cs \<or> subscribers s = []"
  shows "\<exists>s'. perform_all pub cs s = Some s' \<and> publishing s' \<and> subscribers s' = []"
  using assms
proof (induction cs arbitrary: s)
  case Nil
  then show ?case by simp
next
  case (Cons c cs)
  from perform_dispatching[OF Cons.prems(1,2)] obtain s1 where
    s1: "perform pub c s = Some s1" "during_dispatch s s1" by blast
  then have p1: "publishing s1" by (simp add: during_dispatch_def)
  have "Reset \<in> set cs \<or> subscribers s1 = []"
  proof (cases "c = Reset")
    case True
    with s1 show ?thesis by (auto simp: reset_def)
  next
    case False
    with Cons.prems(3) s1 show ?thesis by (auto simp: during_dispatch_def)
  qed
  from Cons.IH[OF Cons.prems(1) p1 this] s1 show ?case by simp
qed

section \<open>The two phases of a dispatch\<close>

lemma allSettled_dispatching:
  assumes "guarded pub" "publishing s"
  shows "\<exists>s'. allSettled pub ps s = Some (s', \<forall>p\<in>set ps. snd p \<noteq> Never) \<and>
           during_dispatch s s'"
  using assms
proof (induction ps arbitrary: s)
  case Nil
  then show ?case by (simp add: during_dispatch_refl)
next
  case (Cons p ps)
  obtain later st where p: "p = (later, st)" by (cases p)
  from perform_all_dispatching[OF Cons.prems] obtain s1 where
    s1: "perform_all pub later s = Some s1" "during_dispatch s s1" by blast
  then have "publishing s1" by (simp add: during_dispatch_def)
  from Cons.IH[OF Cons.prems(1) this] obtain s2 where
    "allSettled pub ps s1 = Some (s2, \<forall>p\<in>set ps. snd p \<noteq> Never)"
    "during_dispatch s1 s2" by blast
  with s1 p show ?case by (auto intro: during_dispatch_trans)
qed

lemma allSettled_emptied:
  assumes "guarded pub" "publishing s"
    and "(\<exists>p\<in>set ps. Reset \<in> set (fst p)) \<or> subscribers s = []"
    and "allSettled pub ps s = Some (s', b)"
  shows "subscribers s' = []"
  using assms
proof (induction ps arbitrary: s b)
  case Nil
  then show ?case by simp
next
  case (Cons p ps)
  obtain later st where p: "p = (later, st)" by (cases p)
  from perform_all_dispatching[OF Cons.prems(1,2)] obtain s1 where
    s1: "perform_all pub later s = Some s1" "during_dispatch s s1" by blast
  then have p1: "publishing s1" by (simp add: during_dispatch_def)
  from Cons.prems(4) p s1 obtain b' where a: "allSettled pub ps s1 = Some (s', b')"
    by (auto split: option.splits)
  have "(\<exists>p\<in>set ps. Reset \<in> set (fst p)) \<or> subscribers s1 = []"
  proof (cases "Reset \<in> set later \<or> subscribers s = []")
    case True
    from perform_all_emptied[OF Cons.prems(1,2) True] s1 show ?thesis by simp
  next
    case False
    with Cons.prems(3) p show ?thesis by auto
  qed
  from Cons.IH[OF Cons.prems(1) p1 this a] show ?case .
qed

lemma map_handle_dispatching:
  assumes "guarded pub" "publishing s"
  shows "\<exists>m. map_handle pub h e ls s = Some m \<and> publishing (system_of m)"
  using assms
proof (induction ls arbitrary: s)
  case Nil
  then show ?case by simp
next
  case (Cons l ls)
  define s2 where "s2 = s\<lparr>console := console s @ [Debug ''calling subscriber for event'' e],
      handled := handled s @ [(l, e)]\<rparr>"
  obtain calls c where sc: "h l e s2 = (calls, c)" by (cases "h l e s2")
  have "publishing s2" using Cons.prems by (simp add: s2_def)
  from perform_all_dispatching[OF Cons.prems(1) this] obtain s3 where
    s3: "perform_all pub calls s2 = Some s3" "during_dispatch s2 s3" by blast
  then have p3: "publishing s3" by (simp add: during_dispatch_def)
  show ?case
  proof (cases c)
    case Throws
    with sc s3 p3 show ?thesis by (simp add: s2_def)
  next
    case (Returns later st)
    from Cons.IH[OF Cons.prems(1) p3] obtain m where
      m: "map_handle pub h e ls s3 = Some m" "publishing (system_of m)" by blast
    with sc s3 Returns show ?thesis by (cases m) (simp_all add: s2_def)
  qed
qed

text \<open>
  When no listener of the list throws before returning, the \<^verbatim>\<open>map\<close> goes through the
  whole list and invokes each entry once, in the order of the list.
\<close>

lemma map_handle_no_throw:
  assumes "guarded pub" "publishing s"
    and "\<forall>l\<in>set ls. \<forall>s'. snd (h l e s') \<noteq> Throws"
  shows "\<exists>s' ps. map_handle pub h e ls s = Some (Mapped s' ps) \<and> publishing s' \<and>
           handled s' = handled s @ map (\<lambda>l. (l, e)) ls"
  using assms
proof (induction ls arbitrary: s)
  case Nil
  then show ?case by simp
next
  case (Cons l ls)
  define s2 where "s2 = s\<lparr>console := console s @ [Debug ''calling subscriber for event'' e],
      handled := handled s @ [(l, e)]\<rparr>"
  obtain calls c where sc: "h l e s2 = (calls, c)" by (cases "h l e s2")
  from Cons.prems(3) have "snd (h l e s2) \<noteq> Throws" by simp
  with sc obtain later st where c: "c = Returns later st" by (cases c) auto
  have "publishing s2" using Cons.prems by (simp add: s2_def)
  from perform_all_dispatching[OF Cons.prems(1) this] obtain s3 where
    s3: "perform_all pub calls s2 = Some s3" "during_dispatch s2 s3" by blast
  then have p3: "publishing s3" and h3: "handled s3 = handled s @ [(l, e)]"
    by (simp_all add: during_dispatch_def s2_def)
  from Cons.prems(3) have "\<forall>l\<in>set ls. \<forall>s'. snd (h l e s') \<noteq> Throws" by simp
  from Cons.IH[OF Cons.prems(1) p3 this] obtain s4 ps where
    "map_handle pub h e ls s3 = Some (Mapped s4 ps)" "publishing s4"
    "handled s4 = handled s3 @ map (\<lambda>l. (l, e)) ls" by blast
  with sc c s3 h3 show ?case by (simp add: s2_def)
qed

text \<open>Every promise collected by the \<^verbatim>\<open>map\<close> was returned by a listener of the list.\<close>

lemma map_handle_promises:
  "map_handle pub h e ls s = Some (Mapped s' ps) \<Longrightarrow>
     \<forall>p\<in>set ps. \<exists>l\<in>set ls. \<exists>s'' calls. h l e s'' = (calls, Returns (fst p) (snd p))"
proof (induction ls arbitrary: s s' ps)
  case Nil
  then show ?case by simp
next
  case (Cons l ls)
  define s2 where "s2 = s\<lparr>console := console s @ [Debug ''calling subscriber for event'' e],
      handled := handled s @ [(l, e)]\<rparr>"
  obtain calls c where sc: "h l e s2 = (calls, c)" by (cases "h l e s2")
  from Cons.prems sc obtain s3 later st s4 qs where
    c: "c = Returns later st" and
    m: "map_handle pub h e ls s3 = Some (Mapped s4 qs)" and
    ps: "ps = (later, st) # qs"
    by (auto simp: s2_def split: option.splits completion.splits mapped.splits)
  from Cons.IH[OF m]
  have "\<forall>p\<in>set qs. \<exists>l\<in>set ls. \<exists>s'' calls. h l e s'' = (calls, Returns (fst p) (snd p))" .
  with sc c ps show ?case by auto
qed

lemma map_handle_emptied:
  assumes "guarded pub" "publishing s"
    and "(\<exists>l\<in>set ls. \<forall>s''. resets (h l e s'')) \<or> subscribers s = []"
    and "map_handle pub h e ls s = Some (Mapped s' ps)"
  shows "subscribers s' = [] \<or> (\<exists>p\<in>set ps. Reset \<in> set (fst p))"
  using assms
proof (induction ls arbitrary: s ps)
  case Nil
  then show ?case by simp
next
  case (Cons l ls)
  define s2 where "s2 = s\<lparr>console := console s @ [Debug ''calling subscriber for event'' e],
      handled := handled s @ [(l, e)]\<rparr>"
  obtain calls c where sc: "h l e s2 = (calls, c)" by (cases "h l e s2")
  have p2: "publishing s2" using Cons.prems(2) by (simp add: s2_def)
  from perform_all_dispatching[OF Cons.prems(1) p2] obtain s3 where
    s3: "perform_all pub calls s2 = Some s3" "during_dispatch s2 s3" by blast
  then have p3: "publishing s3" by (simp add: during_dispatch_def)
  from Cons.prems(4) sc s3 obtain later st qs where
    c: "c = Returns later st" and
    m: "map_handle pub h e ls s3 = Some (Mapped s' qs)" and
    ps: "ps = (later, st) # qs"
    by (auto simp: s2_def split: option.splits completion.splits mapped.splits)
  show ?case
  proof (cases "Reset \<in> set later")
    case True
    with ps show ?thesis by simp
  next
    case False
    have "(\<exists>l\<in>set ls. \<forall>s''. resets (h l e s'')) \<or> subscribers s3 = []"
    proof (cases "Reset \<in> set calls \<or> subscribers s2 = []")
      case True
      from perform_all_emptied[OF Cons.prems(1) p2 True] s3 show ?thesis by simp
    next
      case no: False
      have "\<not> (\<forall>s''. resets (h l e s''))"
      proof
        assume "\<forall>s''. resets (h l e s'')"
        then have "resets (h l e s2)" by blast
        with sc c False no show False by simp
      qed
      moreover from no have "subscribers s \<noteq> []" by (simp add: s2_def)
      ultimately show ?thesis using Cons.prems(3) by auto
    qed
    from Cons.IH[OF Cons.prems(1) p3 this m] ps show ?thesis by auto
  qed
qed

section \<open>A dispatching \<^verbatim>\<open>publish\<close>\<close>

text \<open>
  From an idle publisher one level of depth is enough: \<^verbatim>\<open>publish\<close> always has a result,
  and unless its promise stays pending the flag is cleared when it is done.
\<close>

lemma publish_dispatch:
  assumes "\<not> publishing s"
  shows "\<exists>s' r. publish (Suc n) h event s = Some (s', r) \<and> (r \<noteq> Pending \<longrightarrow> \<not> publishing s')"
proof -
  let ?nested = "\<lambda>e' s'. map_option fst (publish n h e' s')"
  let ?s1 = "s\<lparr>publishing := True\<rparr>"
  have g: "guarded ?nested" by (rule nested_guarded)
  have p1: "publishing ?s1" by simp
  from map_handle_dispatching[OF g p1] obtain m where
    m: "map_handle ?nested h event (subscribers ?s1) ?s1 = Some m" by blast
  show ?thesis
  proof (cases m)
    case (Raised s2)
    with m assms show ?thesis by simp
  next
    case (Mapped s2 ps)
    with map_handle_dispatching[OF g p1, of h event "subscribers ?s1"] m
    have "publishing s2" by simp
    from allSettled_dispatching[OF g this] obtain s3 where
      "allSettled ?nested ps s2 = Some (s3, \<forall>p\<in>set ps. snd p \<noteq> Never)" by blast
    with m Mapped assms show ?thesis
      by (cases "\<forall>p\<in>set ps. snd p \<noteq> Never") simp_all
  qed
qed

text \<open>The promise of \<^verbatim>\<open>publish\<close> stays pending only if the promise of a listener does.\<close>

lemma publish_pending:
  assumes "publish (Suc n) h event s = Some (s', Pending)"
  shows "\<exists>l\<in>set (subscribers s). \<exists>s'' calls later. h l event s'' = (calls, Returns later Never)"
proof -
  let ?nested = "\<lambda>e' s'. map_option fst (publish n h e' s')"
  let ?s1 = "s\<lparr>publishing := True\<rparr>"
  have g: "guarded ?nested" by (rule nested_guarded)
  from assms have np: "\<not> publishing s" by (auto split: if_splits)
  with assms obtain s2 ps where
    m: "map_handle ?nested h event (subscribers ?s1) ?s1 = Some (Mapped s2 ps)" and
    a: "allSettled ?nested ps s2 = Some (s', False)"
    by (auto simp: Let_def split: option.splits mapped.splits bool.splits if_splits)
  from map_handle_dispatching[where pub = ?nested and s = ?s1 and ls = "subscribers ?s1"
      and h = h and e = event, OF g] m
  have "publishing s2" by simp
  from allSettled_dispatching[OF g this, of ps] a
  obtain p where "p \<in> set ps" "snd p = Never" by auto
  with map_handle_promises[OF m] show ?thesis by fastforce
qed

text \<open>
  Rejected promises of listeners are absorbed: when no listener of the registry throws
  before returning, every entry of the registry is invoked once, in order, and the
  promise of \<^verbatim>\<open>publish\<close> does not reject.
\<close>

lemma publish_no_throw:
  assumes "\<not> publishing s"
    and "\<forall>l\<in>set (subscribers s). \<forall>s'. snd (h l event s') \<noteq> Throws"
  shows "\<exists>s' r. publish (Suc n) h event s = Some (s', r) \<and> r \<noteq> Rejected \<and>
           handled s' = handled s @ map (\<lambda>l. (l, event)) (subscribers s)"
proof -
  let ?nested = "\<lambda>e' s'. map_option fst (publish n h e' s')"
  let ?s1 = "s\<lparr>publishing := True\<rparr>"
  have g: "guarded ?nested" by (rule nested_guarded)
  have p1: "publishing ?s1" by simp
  from assms(2) have nt: "\<forall>l\<in>set (subscribers ?s1). \<forall>s'. snd (h l event s') \<noteq> Throws"
    by simp
  from map_handle_no_throw[where pub = ?nested and s = ?s1 and ls = "subscribers ?s1"
      and h = h and e = event, OF g p1 nt] obtain s2 ps where
    m: "map_handle ?nested h event (subscribers ?s1) ?s1 = Some (Mapped s2 ps)"
    and p2: "publishing s2"
    and h2: "handled s2 = handled s @ map (\<lambda>l. (l, event)) (subscribers s)" by auto
  from allSettled_dispatching[OF g p2] obtain s3 where
    a: "allSettled ?nested ps s2 = Some (s3, \<forall>p\<in>set ps. snd p \<noteq> Never)"
    and d: "during_dispatch s2 s3" by blast
  from d h2 have "handled s3 = handled s @ map (\<lambda>l. (l, event)) (subscribers s)"
    by (simp add: during_dispatch_def)
  with m a assms(1) show ?thesis
    by (cases "\<forall>p\<in>set ps. snd p \<noteq> Never") simp_all
qed

text \<open>
  A \<^verbatim>\<open>reset\<close> called by a handler points the field to a new array; the \<^verbatim>\<open>map\<close> goes on
  over the array it started with. So when no listener throws before returning and one
  of them calls \<^verbatim>\<open>reset\<close>, every entry of the registry is still invoked, and the registry
  is empty afterwards.
\<close>

lemma reset_during_dispatch:
  assumes "\<not> publishing s"
    and "\<forall>l\<in>set (subscribers s). \<forall>s'. snd (h l event s') \<noteq> Throws"
    and "l \<in> set (subscribers s)" "\<forall>s'. resets (h l event s')"
  shows "\<exists>s' r. publish (Suc n) h event s = Some (s', r) \<and>
           handled s' = handled s @ map (\<lambda>l. (l, event)) (subscribers s) \<and>
           subscribers s' = []"
proof -
  let ?nested = "\<lambda>e' s'. map_option fst (publish n h e' s')"
  let ?s1 = "s\<lparr>publishing := True\<rparr>"
  have g: "guarded ?nested" by (rule nested_guarded)
  have p1: "publishing ?s1" by simp
  from assms(2) have nt: "\<forall>l\<in>set (subscribers ?s1). \<forall>s'. snd (h l event s') \<noteq> Throws"
    by simp
  from map_handle_no_throw[where pub = ?nested and s = ?s1 and ls = "subscribers ?s1"
      and h = h and e = event, OF g p1 nt] obtain s2 ps where
    m: "map_handle ?nested h event (subscribers ?s1) ?s1 = Some (Mapped s2 ps)"
    and p2: "publishing s2"
    and h2: "handled s2 = handled s @ map (\<lambda>l. (l, event)) (subscribers s)" by auto
  from assms(3,4) have
    "(\<exists>l\<in>set (subscribers ?s1). \<forall>s''. resets (h l event s'')) \<or> subscribers ?s1 = []"
    by auto
  from map_handle_emptied[OF g p1 this m]
  have r: "(\<exists>p\<in>set ps. Reset \<in> set (fst p)) \<or> subscribers s2 = []" by blast
  from allSettled_dispatching[OF g p2] obtain s3 where
    a: "allSettled ?nested ps s2 = Some (s3, \<forall>p\<in>set ps. snd p \<noteq> Never)"
    and d: "during_dispatch s2 s3" by blast
  from allSettled_emptied[OF g p2 r a] have e3: "subscribers s3 = []" .
  from d h2 have "handled s3 = handled s @ map (\<lambda>l. (l, event)) (subscribers s)"
    by (simp add: during_dispatch_def)
  with m a e3 assms(1) show ?thesis
    by (cases "\<forall>p\<in>set ps. snd p \<noteq> Never") simp_all
qed

section \<open>Scenarios\<close>

text \<open>
  \<^verbatim>\<open>subscribe(A), subscribe(B), publish(event1)\<close> with A meddling: C is not added, the
  nested event is not dispatched, A's attempt to unsubscribe only leaves a warning, the
  rejection of A's promise is absorbed, and the registry is \<open>[A, B]\<close> afterwards.
\<close>

lemma scenario_meddling_listener:
  "publish (Suc 0) meddler event1 (fold subscribe [0, 1] DomainEventPublisher) =
   Some (\<lparr>subscribers = [0, 1], publishing = False,
           handled = [(0, event1), (1, event1)],
           console = [Debug ''calling subscriber for event'' event1,
                      Debug ''calling subscriber for event'' event1,
                      Warn ''Tried unsubscribe while publishing'']\<rparr>, Fulfilled)"
  by (simp add: meddler_def DomainEventPublisher_def subscribe_def unsubscribe_def)

text \<open>A calls \<^verbatim>\<open>reset\<close> in its handler, at once or later: B is invoked all the same.\<close>

lemma scenario_reset_in_handler:
  "publish (Suc 0) first_resets event1 (fold subscribe [0, 1] DomainEventPublisher) =
   Some (\<lparr>subscribers = [], publishing = False,
           handled = [(0, event1), (1, event1)],
           console = [Debug ''calling subscriber for event'' event1,
                      Debug ''calling subscriber for event'' event1]\<rparr>, Fulfilled)"
  by (simp add: first_resets_def DomainEventPublisher_def subscribe_def reset_def)

lemma scenario_reset_after_await:
  "publish (Suc 0) first_resets_later event1 (fold subscribe [0, 1] DomainEventPublisher) =
   Some (\<lparr>subscribers = [], publishing = False,
           handled = [(0, event1), (1, event1)],
           console = [Debug ''calling subscriber for event'' event1,
                      Debug ''calling subscriber for event'' event1]\<rparr>, Fulfilled)"
  by (simp add: first_resets_later_def DomainEventPublisher_def subscribe_def reset_def)

section \<open>The claims\<close>

text \<open>
  Claim C1: for every state and every event, \<^verbatim>\<open>publish(event)\<close> invokes \<^verbatim>\<open>handle\<close> exactly
  once on each listener present in the registry at the time of the call, in
  registration order, duplicates once per occurrence.

  This holds for a call that finds the dispatch flag false, as long as no listener of
  the registry throws before returning: the invocations added by the call are the
  registry, entry by entry. It does not hold in every state: a call that finds the flag
  true is stopped by the guard and invokes nobody.
\<close>

theorem publish_invokes_registry_in_order:
  assumes "\<not> publishing s"
    and "\<forall>l\<in>set (subscribers s). \<forall>s'. snd (h l event s') \<noteq> Throws"
  shows "\<exists>s' r. publish (Suc n) h event s = Some (s', r) \<and>
           handled s' = handled s @ map (\<lambda>l. (l, event)) (subscribers s)"
  using publish_no_throw[where s = s and h = h and event = event and n = n, OF assms] by blast

theorem publish_invokes_registry_in_order_witness:
  "\<exists>s' r. publish (Suc 0) meddler event1
       \<lparr>subscribers = [0, 1, 0], publishing = False, handled = [], console = []\<rparr> = Some (s', r) \<and>
     handled s' = [(0, event1), (1, event1), (0, event1)]"
proof -
  let ?s = "\<lparr>subscribers = [0, 1, 0], publishing = False, handled = [], console = []\<rparr>"
  have idle: "\<not> publishing ?s" by simp
  have no_throw: "\<forall>l\<in>set (subscribers ?s). \<forall>s'. snd (meddler l event1 s') \<noteq> Throws"
    by (simp add: meddler_def)
  from publish_invokes_registry_in_order[where s = ?s and h = meddler and event = event1
      and n = 0, OF idle no_throw]
  show ?thesis by simp
qed

text \<open>
  Two inputs at which the statement of C1 fails. With the flag true, \<^verbatim>\<open>publish\<close> invokes
  neither A nor B. With the flag false and B throwing before it returns, C is in the
  registry and is not invoked.
\<close>

theorem publish_invokes_registry_counterexample:
  "publish (Suc 0) well_behaved event1
     \<lparr>subscribers = [0, 1], publishing = True, handled = [], console = []\<rparr> =
   Some (\<lparr>subscribers = [0, 1], publishing = True, handled = [], console = []\<rparr>, Fulfilled)
   \<and>
   publish (Suc 0) second_throws event1
     \<lparr>subscribers = [0, 1, 2], publishing = False, handled = [], console = []\<rparr> =
   Some (\<lparr>subscribers = [0, 1, 2], publishing = False,
           handled = [(0, event1), (1, event1)],
           console = [Debug ''calling subscriber for event'' event1,
                      Debug ''calling subscriber for event'' event1]\<rparr>, Rejected)"
  by (simp add: second_throws_def)

text \<open>
  Claim C2: if listener A throws synchronously or returns a rejecting promise,
  \<^verbatim>\<open>publish\<close> still invokes every subsequent listener and completes without propagating
  the failure.

  For a rejecting promise this is \<open>publish_no_throw\<close>. For a synchronous throw the code
  does otherwise: the exception leaves the callback of \<^verbatim>\<open>map\<close>, which stops, passes the
  \<^verbatim>\<open>finally\<close> block, and rejects the promise of \<^verbatim>\<open>publish\<close>. With the registry \<open>[A, B]\<close> and
  A throwing, B is not invoked and the promise is rejected.
\<close>

theorem synchronous_throw_skips_later_listeners:
  "publish (Suc 0) first_throws event1
     \<lparr>subscribers = [0, 1], publishing = False, handled = [], console = []\<rparr> =
   Some (\<lparr>subscribers = [0, 1], publishing = False,
           handled = [(0, event1)],
           console = [Debug ''calling subscriber for event'' event1]\<rparr>, Rejected)"
  by (simp add: first_throws_def)

text \<open>
  Claim C3: whatever the input and the behaviour of the listeners, none of \<^verbatim>\<open>publish\<close>,
  \<^verbatim>\<open>subscribe\<close>, \<^verbatim>\<open>unsubscribe\<close>, \<^verbatim>\<open>reset\<close> raises an exception to its caller; the promise
  returned by \<^verbatim>\<open>publish\<close> never rejects.

  \<^verbatim>\<open>subscribe\<close>, \<^verbatim>\<open>unsubscribe\<close> and \<^verbatim>\<open>reset\<close> have no failing path. The promise of
  \<^verbatim>\<open>publish\<close> does reject when a listener throws before returning: here the only
  listener of the registry does.
\<close>

theorem synchronous_throw_rejects_publish:
  "publish (Suc 0) first_throws event1
     \<lparr>subscribers = [0], publishing = False, handled = [], console = []\<rparr> =
   Some (\<lparr>subscribers = [0], publishing = False,
           handled = [(0, event1)],
           console = [Debug ''calling subscriber for event'' event1]\<rparr>, Rejected)"
  by (simp add: first_throws_def)

text \<open>
  Claim C4: a \<^verbatim>\<open>publish\<close> invoked while the dispatch flag is true returns at once: it
  invokes no listener, raises no error (its promise is fulfilled), writes nothing to the
  console and leaves the publisher as it is. No depth of nesting is needed for it.
\<close>

theorem reentrant_publish_is_dropped:
  "publishing s \<Longrightarrow> publish n h event s = Some (s, Fulfilled)"
  by (rule publish_guard)

theorem reentrant_publish_is_dropped_witness:
  "publishing \<lparr>subscribers = [0, 1], publishing = True, handled = [(0, event1)], console = []\<rparr>
   \<and> publish 0 meddler event1
       \<lparr>subscribers = [0, 1], publishing = True, handled = [(0, event1)], console = []\<rparr> =
     Some (\<lparr>subscribers = [0, 1], publishing = True, handled = [(0, event1)], console = []\<rparr>,
           Fulfilled)"
proof -
  let ?s = "\<lparr>subscribers = [0, 1], publishing = True, handled = [(0, event1)], console = []\<rparr>"
  have dispatching: "publishing ?s" by simp
  from dispatching reentrant_publish_is_dropped[OF dispatching, of 0 meddler event1]
  show ?thesis by simp
qed

text \<open>
  Claim C5: after every \<^verbatim>\<open>publish\<close> call returns, whether all listeners succeeded or some
  failed, the dispatch flag is false again, so that a subsequent \<^verbatim>\<open>subscribe\<close> or
  \<^verbatim>\<open>unsubscribe\<close> takes effect normally; the flag is cleared on every exit path.

  This holds for a call that finds the flag false: it has a result at every depth, and
  when it returns, fulfilled or rejected, the flag is false, \<^verbatim>\<open>subscribe\<close> appends and
  \<^verbatim>\<open>unsubscribe\<close> removes the first occurrence. It does not return only if the promise
  of a listener of the registry never settles. The exit path of the guard is different:
  a call that finds the flag true returns with the flag still true.
\<close>

theorem publish_releases_flag:
  assumes "\<not> publishing s"
  shows "\<exists>s' r. publish (Suc n) h event s = Some (s', r) \<and>
           (r \<noteq> Pending \<longrightarrow>
              \<not> publishing s' \<and>
              subscribe l s' = s'\<lparr>subscribers := subscribers s' @ [l]\<rparr> \<and>
              unsubscribe l s' = s'\<lparr>subscribers := remove1 l (subscribers s')\<rparr>) \<and>
           (r = Pending \<longrightarrow>
              (\<exists>k\<in>set (subscribers s). \<exists>s'' calls later.
                 h k event s'' = (calls, Returns later Never)))"
proof -
  from publish_dispatch[OF assms] obtain s' r where
    run: "publish (Suc n) h event s = Some (s', r)" and
    released: "r \<noteq> Pending \<longrightarrow> \<not> publishing s'" by blast
  have "r = Pending \<longrightarrow>
      (\<exists>k\<in>set (subscribers s). \<exists>s'' calls later. h k event s'' = (calls, Returns later Never))"
    using run publish_pending[where n = n and h = h and event = event and s = s and s' = s']
    by blast
  with run released show ?thesis
    by (auto simp: subscribe_idle unsubscribe_idle)
qed

theorem publish_releases_flag_witness:
  "publish (Suc 0) first_throws event1
     \<lparr>subscribers = [1, 0, 1], publishing = False, handled = [], console = []\<rparr> =
   Some (\<lparr>subscribers = [1, 0, 1], publishing = False,
           handled = [(1, event1), (0, event1)],
           console = [Debug ''calling subscriber for event'' event1,
                      Debug ''calling subscriber for event'' event1]\<rparr>, Rejected)
   \<and>
   subscribers (subscribe 2 \<lparr>subscribers = [1, 0, 1], publishing = False,
       handled = [(1, event1), (0, event1)],
       console = [Debug ''calling subscriber for event'' event1,
                  Debug ''calling subscriber for event'' event1]\<rparr>) = [1, 0, 1, 2]
   \<and>
   subscribers (unsubscribe 1 \<lparr>subscribers = [1, 0, 1], publishing = False,
       handled = [(1, event1), (0, event1)],
       console = [Debug ''calling subscriber for event'' event1,
                  Debug ''calling subscriber for event'' event1]\<rparr>) = [0, 1]
   \<and>
   publish (Suc 0) second_hangs event1
     \<lparr>subscribers = [0, 1], publishing = False, handled = [], console = []\<rparr> =
   Some (\<lparr>subscribers = [0, 1], publishing = True,
           handled = [(0, event1), (1, event1)],
           console = [Debug ''calling subscriber for event'' event1,
                      Debug ''calling subscriber for event'' event1]\<rparr>, Pending)
   \<and>
   second_hangs 1 event1 DomainEventPublisher = ([], Returns [] Never)"
proof -
  let ?s = "\<lparr>subscribers = [1, 0, 1], publishing = False, handled = [], console = []\<rparr>"
  let ?t = "\<lparr>subscribers = [0, 1], publishing = False, handled = [], console = []\<rparr>"
  have idle_s: "\<not> publishing ?s" and idle_t: "\<not> publishing ?t" by simp_all
  from publish_releases_flag[where s = ?s and n = 0 and h = first_throws and event = event1
      and l = 2, OF idle_s]
    publish_releases_flag[where s = ?s and n = 0 and h = first_throws and event = event1
      and l = 1, OF idle_s]
    publish_releases_flag[where s = ?t and n = 0 and h = second_hangs and event = event1
      and l = 2, OF idle_t]
  show ?thesis
    by (simp add: first_throws_def second_hangs_def)
qed

text \<open>
  An input at which the statement of C5 fails: the flag is true when \<^verbatim>\<open>publish\<close> is
  called. The call returns through the guard, the flag is still true, and a subsequent
  \<^verbatim>\<open>subscribe\<close> has no effect.
\<close>

theorem publish_releases_flag_counterexample:
  "publish (Suc 0) well_behaved event1
     \<lparr>subscribers = [0], publishing = True, handled = [(0, event1)], console = []\<rparr> =
   Some (\<lparr>subscribers = [0], publishing = True, handled = [(0, event1)], console = []\<rparr>,
         Fulfilled)
   \<and>
   subscribe 1 \<lparr>subscribers = [0], publishing = True, handled = [(0, event1)], console = []\<rparr> =
     \<lparr>subscribers = [0], publishing = True, handled = [(0, event1)], console = []\<rparr>"
  by (simp add: subscribe_def)

text \<open>
  Claim C6: while the dispatch flag is true, \<^verbatim>\<open>subscribe\<close> and \<^verbatim>\<open>unsubscribe\<close> leave the
  registry unchanged and do not throw: \<^verbatim>\<open>subscribe\<close> changes nothing at all,
  \<^verbatim>\<open>unsubscribe\<close> only writes a warning to the console.
\<close>

theorem mutation_rejected_while_dispatching:
  assumes "publishing s"
  shows "subscribe l s = s
    \<and> unsubscribe l s = s\<lparr>console := console s @ [Warn ''Tried unsubscribe while publishing'']\<rparr>
    \<and> subscribers (subscribe l s) = subscribers s
    \<and> subscribers (unsubscribe l s) = subscribers s"
  using assms by (simp add: subscribe_def unsubscribe_def)

theorem mutation_rejected_while_dispatching_witness:
  "publishing \<lparr>subscribers = [0, 1], publishing = True, handled = [], console = []\<rparr>
   \<and> subscribe 2 \<lparr>subscribers = [0, 1], publishing = True, handled = [], console = []\<rparr> =
       \<lparr>subscribers = [0, 1], publishing = True, handled = [], console = []\<rparr>
   \<and> unsubscribe 0 \<lparr>subscribers = [0, 1], publishing = True, handled = [], console = []\<rparr> =
       \<lparr>subscribers = [0, 1], publishing = True, handled = [],
          console = [Warn ''Tried unsubscribe while publishing'']\<rparr>"
proof -
  let ?s = "\<lparr>subscribers = [0, 1], publishing = True, handled = [], console = []\<rparr>"
  have dispatching: "publishing ?s" by simp
  from mutation_rejected_while_dispatching[OF dispatching, of 2]
    mutation_rejected_while_dispatching[OF dispatching, of 0]
  show ?thesis by simp
qed

text \<open>
  Claim C7: for any sequence of \<^verbatim>\<open>subscribe\<close> calls made while the dispatch flag is false,
  the registry afterwards holds the listeners passed, in call order, every occurrence
  kept; each \<^verbatim>\<open>subscribe\<close> appends to the end. The calls are added after what the registry
  held before; on the fresh publisher the registry is exactly the sequence.
\<close>

theorem subscribe_appends_in_call_order:
  assumes "\<not> publishing s"
  shows "fold subscribe ls s = s\<lparr>subscribers := subscribers s @ ls\<rparr>
    \<and> subscribe l s = s\<lparr>subscribers := subscribers s @ [l]\<rparr>
    \<and> subscribers (fold subscribe ls DomainEventPublisher) = ls"
proof -
  have "\<not> publishing DomainEventPublisher" by (simp add: DomainEventPublisher_def)
  then have "subscribers (fold subscribe ls DomainEventPublisher) = ls"
    by (simp add: fold_subscribe_idle DomainEventPublisher_def)
  with assms show ?thesis by (simp add: fold_subscribe_idle subscribe_idle)
qed

theorem subscribe_appends_in_call_order_witness:
  "\<not> publishing \<lparr>subscribers = [1], publishing = False, handled = [], console = []\<rparr>
   \<and> fold subscribe [0, 1, 0] \<lparr>subscribers = [1], publishing = False, handled = [], console = []\<rparr> =
       \<lparr>subscribers = [1, 0, 1, 0], publishing = False, handled = [], console = []\<rparr>
   \<and> subscribers (fold subscribe [0, 1, 0] DomainEventPublisher) = [0, 1, 0]"
proof -
  let ?s = "\<lparr>subscribers = [1], publishing = False, handled = [], console = []\<rparr>"
  have idle: "\<not> publishing ?s" by simp
  from subscribe_appends_in_call_order[OF idle, of "[0, 1, 0]" 0]
  show ?thesis by (simp add: subscribe_def DomainEventPublisher_def)
qed

text \<open>
  Claim C8: with the dispatch flag false, \<^verbatim>\<open>unsubscribe(listener)\<close> removes exactly the
  first occurrence of the listener, compared by reference, and leaves the other entries
  and their order as they were; when the listener is not in the registry nothing
  changes and no error is raised.
\<close>

theorem unsubscribe_removes_first_occurrence:
  assumes "\<not> publishing s"
  shows "unsubscribe l s = s\<lparr>subscribers := remove1 l (subscribers s)\<rparr>
    \<and> (l \<notin> set (subscribers s) \<longrightarrow> unsubscribe l s = s)
    \<and> (subscribers s = xs @ l # ys \<and> l \<notin> set xs \<longrightarrow>
          unsubscribe l s = s\<lparr>subscribers := xs @ ys\<rparr>)"
  using assms by (simp add: unsubscribe_idle remove1_idem remove1_first)

theorem unsubscribe_removes_first_occurrence_witness:
  "\<not> publishing \<lparr>subscribers = [0, 1, 0, 1], publishing = False, handled = [], console = []\<rparr>
   \<and> unsubscribe 1 \<lparr>subscribers = [0, 1, 0, 1], publishing = False, handled = [], console = []\<rparr> =
       \<lparr>subscribers = [0, 0, 1], publishing = False, handled = [], console = []\<rparr>
   \<and> unsubscribe 5 \<lparr>subscribers = [0, 1, 0, 1], publishing = False, handled = [], console = []\<rparr> =
       \<lparr>subscribers = [0, 1, 0, 1], publishing = False, handled = [], console = []\<rparr>"
proof -
  let ?s = "\<lparr>subscribers = [0, 1, 0, 1], publishing = False, handled = [], console = []\<rparr>"
  have idle: "\<not> publishing ?s" by simp
  from unsubscribe_removes_first_occurrence[OF idle, of 1 "[0]" "[0, 1]"]
    unsubscribe_removes_first_occurrence[OF idle, of 5 "[]" "[]"]
  show ?thesis by simp
qed

text \<open>
  Claim C9: \<^verbatim>\<open>reset()\<close> empties the registry whatever the dispatch flag and the state
  before, does not change the flag, and a \<^verbatim>\<open>publish\<close> issued after it invokes no
  listener: that \<^verbatim>\<open>publish\<close> leaves the system, with its record of invocations, as
  \<^verbatim>\<open>reset\<close> left it.
\<close>

theorem reset_empties_registry:
  "reset s = s\<lparr>subscribers := []\<rparr>
   \<and> subscribers (reset s) = []
   \<and> publishing (reset s) = publishing s
   \<and> handled (reset s) = handled s
   \<and> publish (Suc n) h event (reset s) = Some (reset s, Fulfilled)"
  by (cases "publishing s") (simp_all add: reset_def)

text \<open>
  Claim C10: if a listener's handler calls \<^verbatim>\<open>reset()\<close> during a dispatch, every listener
  that was in the registry when \<^verbatim>\<open>publish\<close> started is still invoked for that event, and
  the registry is empty after \<^verbatim>\<open>publish\<close> returns.

  The \<^verbatim>\<open>reset\<close> itself does not disturb the dispatch (\<open>reset_during_dispatch\<close>,
  \<open>scenario_reset_in_handler\<close>). But a listener may call \<^verbatim>\<open>reset\<close> and then throw before
  returning: with the registry \<open>[A, B]\<close> and such an A the registry is emptied and B,
  which was in the registry when \<^verbatim>\<open>publish\<close> started, is not invoked.
\<close>

theorem reset_then_throw_skips_later_listeners:
  "publish (Suc 0) resets_then_throws event1
     \<lparr>subscribers = [0, 1], publishing = False, handled = [], console = []\<rparr> =
   Some (\<lparr>subscribers = [], publishing = False,
           handled = [(0, event1)],
           console = [Debug ''calling subscriber for event'' event1]\<rparr>, Rejected)"
  by (simp add: resets_then_throws_def reset_def)

end
